theory Spec2Isabelle
  imports Complex_Main "HOL-Library.Multiset" "HOL-Library.Sublist"
begin

section \<open>Data of the two scripts\<close>

text \<open>
  \<^verbatim>\<open>som.py\<close> is a straight-line script over NumPy arrays.  A row of the feature
  matrix \<^verbatim>\<open>X\<close> is a vector of floats; a grid cell is the pair of coordinates that
  \<^verbatim>\<open>som.winner\<close> returns and that keys the dictionary of \<^verbatim>\<open>som.win_map\<close>.
  Floats are read as the real numbers they denote: the script only compares them
  (\<^verbatim>\<open>dist[i][j] > 0.95\<close>), and the comparison of two floats is the comparison of
  their values.  The literal \<^verbatim>\<open>0.95\<close> is the double next below \<open>95/100\<close>, and no
  double lies between the two, so \<^verbatim>\<open>d > 0.95\<close> on doubles is \<open>d > 95/100\<close> on
  their values.
\<close>

type_synonym vec = "real list"
type_synonym cell = "nat \<times> nat"

datatype error = ValueError | IndexError

section \<open>The reverse index: a \<^verbatim>\<open>defaultdict(list)\<close>\<close>

text \<open>
  \<^verbatim>\<open>mappings[(j, i)]\<close> on a \<^verbatim>\<open>defaultdict(list)\<close>: a key that is present gives
  its list; a missing key gives a new empty list, which is also stored under the key.
\<close>

definition getitem :: "('k \<rightharpoonup> 'r list) \<Rightarrow> 'k \<Rightarrow> 'r list \<times> ('k \<rightharpoonup> 'r list)" where
  "getitem m k = (case m k of None \<Rightarrow> ([], m(k \<mapsto> [])) | Some v \<Rightarrow> (v, m))"

definition lookup :: "('k \<rightharpoonup> 'r list) \<Rightarrow> 'k \<Rightarrow> 'r list" where
  "lookup m k = fst (getitem m k)"

text \<open>
  Modelled from the spec: \<^verbatim>\<open>MiniSom.win_map\<close> is code of the minisom package and is
  not among the sources.  The spec asks for "a reverse index from cell coordinates to
  the set of input vectors whose winner is that cell"; minisom builds it as a
  \<^verbatim>\<open>defaultdict(list)\<close>, appending each row of the data, in order, to the list kept
  under the row's winner:
  \<^verbatim>\<open>
  winmap = defaultdict(list)
  for x in data:
      winmap[self.winner(x)].append(x)
  return winmap
  \<close>
\<close>

fun win_map_loop :: "('r \<Rightarrow> cell) \<Rightarrow> 'r list \<Rightarrow> (cell \<rightharpoonup> 'r list) \<Rightarrow> (cell \<rightharpoonup> 'r list)" where
  "win_map_loop winner [] winmap = winmap"
| "win_map_loop winner (x # data) winmap =
     (let (l, winmap') = getitem winmap (winner x)
      in win_map_loop winner data (winmap'(winner x \<mapsto> l @ [x])))"

definition win_map :: "('r \<Rightarrow> cell) \<Rightarrow> 'r list \<Rightarrow> (cell \<rightharpoonup> 'r list)" where
  "win_map winner data = win_map_loop winner data Map.empty"

section \<open>The feature scaler\<close>

text \<open>
  Modelled from the spec: \<^verbatim>\<open>MinMaxScaler\<close> is code of scikit-learn and is not
  among the sources.  The spec asks for "a reversible transform function mapping
  raw to scaled values per column independently (min-max normalization)" and its
  inverse, for a target range that the script sets to \<open>(0, 1)\<close>.  scikit-learn
  keeps, per column, \<^verbatim>\<open>scale_ = (1 - 0) / (data_max_ - data_min_)\<close> and
  \<^verbatim>\<open>min_ = 0 - data_min_ * scale_\<close>, taking the range of a constant column to be 1;
  \<^verbatim>\<open>transform\<close> computes \<^verbatim>\<open>X * scale_ + min_\<close> and \<^verbatim>\<open>inverse_transform\<close>
  computes \<^verbatim>\<open>(X - min_) / scale_\<close>.  The arithmetic is exact here (reals), not
  floating point.  A matrix is the list of its rows; \<open>well_shaped\<close> is what
  scikit-learn accepts: at least one row, at least one column, and rows of one width.
\<close>

record scaler =
  data_min_of :: vec
  data_max_of :: vec
  scale_of :: vec
  min_of :: vec

definition column :: "vec list \<Rightarrow> nat \<Rightarrow> real list" where
  "column X c = map (\<lambda>r. r ! c) X"

definition amin :: "real list \<Rightarrow> real" where
  "amin xs = fold min (tl xs) (hd xs)"

definition amax :: "real list \<Rightarrow> real" where
  "amax xs = fold max (tl xs) (hd xs)"

definition handle_zeros_in_scale :: "real \<Rightarrow> real" where
  "handle_zeros_in_scale s = (if s = 0 then 1 else s)"

definition well_shaped :: "vec list \<Rightarrow> bool" where
  "well_shaped X = (X \<noteq> [] \<and> hd X \<noteq> [] \<and> list_all (\<lambda>r. length r = length (hd X)) X)"

definition fitted :: "vec list \<Rightarrow> scaler" where
  "fitted X =
     (let cols = map (column X) [0..<length (hd X)];
          data_min = map amin cols;
          data_max = map amax cols;
          data_range = map2 (-) data_max data_min;
          scale = map (\<lambda>r. (1 - 0) / handle_zeros_in_scale r) data_range
      in \<lparr>data_min_of = data_min, data_max_of = data_max, scale_of = scale,
           min_of = map2 (\<lambda>mn s. 0 - mn * s) data_min scale\<rparr>)"

definition fit :: "vec list \<Rightarrow> error + scaler" where
  "fit X = (if \<not> well_shaped X then Inl ValueError else Inr (fitted X))"

definition transform_row :: "scaler \<Rightarrow> vec \<Rightarrow> vec" where
  "transform_row sc r = map2 (+) (map2 (*) r (scale_of sc)) (min_of sc)"

definition inverse_row :: "scaler \<Rightarrow> vec \<Rightarrow> vec" where
  "inverse_row sc r = map2 (/) (map2 (-) r (min_of sc)) (scale_of sc)"

definition fit_transform :: "vec list \<Rightarrow> error + scaler \<times> vec list" where
  "fit_transform X =
     (case fit X of Inl e \<Rightarrow> Inl e | Inr sc \<Rightarrow> Inr (sc, map (transform_row sc) X))"

section \<open>Finding the frauds (som.py, lines 129 to 150)\<close>

text \<open>
  \<^verbatim>\<open>sc.inverse_transform(node_map)\<close> is handed the Python list of rows kept under one
  cell.  scikit-learn first turns the list into a new two-dimensional array and
  refuses what is not one: the empty list gives an array of shape \<open>(0,)\<close> and a
  \<^verbatim>\<open>ValueError\<close>.  On a non-empty list of rows of \<^verbatim>\<open>X\<close> it returns the new array
  with the inverse of the scaling applied to each row; \<open>unscale\<close> is that inverse on
  one row.
\<close>

definition inverse_transform :: "('r \<Rightarrow> 'r) \<Rightarrow> 'r list \<Rightarrow> error + 'r list" where
  "inverse_transform unscale node_map =
     (if node_map = [] then Inl ValueError else Inr (map unscale node_map))"

text \<open>
  The variables the loop assigns: the dictionary (reading a missing key stores an
  empty list), the two lists it appends to, and what it prints.
\<close>

record 'r loop_state =
  mappings :: "cell \<rightharpoonup> 'r list"
  winning_nodes :: "cell list"
  frauds :: "'r list list"
  printed :: "(nat \<times> nat \<times> 'r list) list"

text \<open>
  The body of the inner loop, for one pair \<open>(i, j)\<close>.  \<open>dist_T\<close> is the script's \<^verbatim>\<open>dist\<close>,
  \<^verbatim>\<open>som.distance_map().T\<close>, a 10 by 10 array that the loop reads at indices below
  10 only; it is given as the function from the two indices to the entry.
\<close>

definition visit :: "('r \<Rightarrow> 'r) \<Rightarrow> (nat \<Rightarrow> nat \<Rightarrow> real) \<Rightarrow> real \<Rightarrow> nat \<Rightarrow> nat \<Rightarrow>
    'r loop_state \<Rightarrow> error + 'r loop_state" where
  "visit unscale dist_T threshold i j s =
     (if dist_T i j > threshold then
        (let s1 = s\<lparr>winning_nodes := winning_nodes s @ [(j, i)]\<rparr>;
             (node_map, m') = getitem (mappings s1) (j, i);
             s2 = s1\<lparr>mappings := m'\<rparr>
         in case inverse_transform unscale node_map of
              Inl e \<Rightarrow> Inl e
            | Inr customers \<Rightarrow>
                Inr (s2\<lparr>printed := printed s2 @ [(j, i, customers)],
                        frauds := frauds s2 @ [customers]\<rparr>))
      else Inr s)"

text \<open>\<^verbatim>\<open>for j in range(10)\<close> and \<^verbatim>\<open>for i in range(10)\<close>: an exception leaves both loops.\<close>

fun inner_loop :: "('r \<Rightarrow> 'r) \<Rightarrow> (nat \<Rightarrow> nat \<Rightarrow> real) \<Rightarrow> real \<Rightarrow> nat \<Rightarrow> nat list \<Rightarrow>
    'r loop_state \<Rightarrow> error + 'r loop_state" where
  "inner_loop unscale dist_T threshold i [] s = Inr s"
| "inner_loop unscale dist_T threshold i (j # js) s =
     (case visit unscale dist_T threshold i j s of
        Inl e \<Rightarrow> Inl e
      | Inr s' \<Rightarrow> inner_loop unscale dist_T threshold i js s')"

fun outer_loop :: "('r \<Rightarrow> 'r) \<Rightarrow> (nat \<Rightarrow> nat \<Rightarrow> real) \<Rightarrow> real \<Rightarrow> nat list \<Rightarrow>
    'r loop_state \<Rightarrow> error + 'r loop_state" where
  "outer_loop unscale dist_T threshold [] s = Inr s"
| "outer_loop unscale dist_T threshold (i # rest) s =
     (case inner_loop unscale dist_T threshold i [0..<10] s of
        Inl e \<Rightarrow> Inl e
      | Inr s' \<Rightarrow> outer_loop unscale dist_T threshold rest s')"

text \<open>
  \<^verbatim>\<open>np.concatenate(tuple(frauds))\<close>: NumPy refuses an empty tuple ("need at least
  one array to concatenate") and otherwise stacks the arrays, in order, row after row.
\<close>

definition concatenate :: "'r list list \<Rightarrow> error + 'r list" where
  "concatenate arrays = (if arrays = [] then Inl ValueError else Inr (concat arrays))"

text \<open>
  Lines 129 to 150 after \<^verbatim>\<open>mappings\<close> and \<^verbatim>\<open>dist\<close> are bound.  The threshold is
  the literal \<open>0.95\<close> in the script and a parameter here.
\<close>

definition init_state :: "(cell \<rightharpoonup> 'r list) \<Rightarrow> 'r loop_state" where
  "init_state m = \<lparr>mappings = m, winning_nodes = [], frauds = [], printed = []\<rparr>"

definition run_loops :: "('r \<Rightarrow> 'r) \<Rightarrow> (nat \<Rightarrow> nat \<Rightarrow> real) \<Rightarrow> real \<Rightarrow> (cell \<rightharpoonup> 'r list) \<Rightarrow>
    error + 'r loop_state" where
  "run_loops unscale dist_T threshold m = outer_loop unscale dist_T threshold [0..<10] (init_state m)"

definition find_frauds :: "('r \<Rightarrow> 'r) \<Rightarrow> (nat \<Rightarrow> nat \<Rightarrow> real) \<Rightarrow> real \<Rightarrow> (cell \<rightharpoonup> 'r list) \<Rightarrow>
    error + 'r list" where
  "find_frauds unscale dist_T threshold m =
     (case run_loops unscale dist_T threshold m of
        Inl e \<Rightarrow> Inl e
      | Inr s \<Rightarrow> concatenate (frauds s))"

section \<open>The order of the enumeration\<close>

text \<open>
  The index pairs \<open>(i, j)\<close> in the order in which the two loops reach them, the
  pairs among them whose entry of \<open>dist_T\<close> exceeds the threshold, and the order
  "row \<open>i\<close> first, then column \<open>j\<close>" on index pairs.
\<close>

definition grid_order :: "(nat \<times> nat) list" where
  "grid_order = concat (map (\<lambda>i. map (Pair i) [0..<10]) [0..<10])"

definition selected :: "(nat \<Rightarrow> nat \<Rightarrow> real) \<Rightarrow> real \<Rightarrow> (nat \<times> nat) list" where
  "selected dist_T threshold = filter (\<lambda>(i, j). dist_T i j > threshold) grid_order"

definition row_major :: "nat \<times> nat \<Rightarrow> nat \<times> nat \<Rightarrow> bool" where
  "row_major p q = (fst p < fst q \<or> (fst p = fst q \<and> snd p < snd q))"

text \<open>The loop body run over a list of index pairs: both loops are instances of it.\<close>

fun visit_all :: "('r \<Rightarrow> 'r) \<Rightarrow> (nat \<Rightarrow> nat \<Rightarrow> real) \<Rightarrow> real \<Rightarrow> (nat \<times> nat) list \<Rightarrow>
    'r loop_state \<Rightarrow> error + 'r loop_state" where
  "visit_all unscale dist_T threshold [] s = Inr s"
| "visit_all unscale dist_T threshold ((i, j) # ps) s =
     (case visit unscale dist_T threshold i j s of
        Inl e \<Rightarrow> Inl e
      | Inr s' \<Rightarrow> visit_all unscale dist_T threshold ps s')"

text \<open>The pairs of a list whose entry of \<open>dist_T\<close> exceeds the threshold.\<close>

definition over :: "(nat \<Rightarrow> nat \<Rightarrow> real) \<Rightarrow> real \<Rightarrow> (nat \<times> nat) list \<Rightarrow> (nat \<times> nat) list" where
  "over dist_T threshold ps = filter (\<lambda>(i, j). dist_T i j > threshold) ps"

section \<open>The script som.py as a whole\<close>

text \<open>
  The trained map.  \<^verbatim>\<open>MiniSom(x = 10, y = 10, ...)\<close>, \<^verbatim>\<open>random_weights_init\<close> and
  \<^verbatim>\<open>train_random\<close> are code of the minisom package; the script uses two queries of
  the trained object: \<^verbatim>\<open>winner(x)\<close>, the coordinates of the best matching cell of a
  row, and \<^verbatim>\<open>distance_map()\<close>, the 10 by 10 array of normalised mean inter-neuron
  distances, read below as a function of the two indices.
\<close>

record som =
  winner :: "vec \<Rightarrow> cell"
  distance_map :: "nat \<Rightarrow> nat \<Rightarrow> real"

text \<open>\<^verbatim>\<open>a.T\<close>, the transposed array.\<close>

definition T :: "(nat \<Rightarrow> nat \<Rightarrow> real) \<Rightarrow> nat \<Rightarrow> nat \<Rightarrow> real" where
  "T a = (\<lambda>i j. a j i)"


text \<open>
  Indexing a Python list or a one-dimensional array with an integer: a negative index
  counts from the end, an index out of range raises \<^verbatim>\<open>IndexError\<close>.
\<close>

definition py_index :: "'a list \<Rightarrow> int \<Rightarrow> error + 'a" where
  "py_index xs k =
     (let n = int (length xs)
      in if 0 \<le> k \<and> k < n then Inr (xs ! nat k)
         else if - n \<le> k \<and> k < 0 then Inr (xs ! nat (n + k))
         else Inl IndexError)"

definition markers :: "char list" where
  "markers = [CHR ''o'', CHR ''s'']"

definition colors :: "char list" where
  "colors = [CHR ''r'', CHR ''g'']"

text \<open>
  Lines 93 to 112: one call of \<^verbatim>\<open>plot\<close> per row, recorded as the position, the
  marker and the colour it is given.  \<^verbatim>\<open>markers[y[i]]\<close> and \<^verbatim>\<open>colors[y[i]]\<close> index
  two-element lists with the label of the row.
\<close>

type_synonym marker = "real \<times> real \<times> char \<times> char"

fun plot_loop :: "som \<Rightarrow> int list \<Rightarrow> (nat \<times> vec) list \<Rightarrow> marker list \<Rightarrow> error + marker list" where
  "plot_loop som y [] plotted = Inr plotted"
| "plot_loop som y ((i, x) # rest) plotted =
     (let w = winner som x
      in case py_index y (int i) of
           Inl e \<Rightarrow> Inl e
         | Inr l \<Rightarrow>
             (case py_index markers l of
                Inl e \<Rightarrow> Inl e
              | Inr mk \<Rightarrow>
                  (case py_index colors l of
                     Inl e \<Rightarrow> Inl e
                   | Inr c \<Rightarrow>
                       plot_loop som y rest
                         (plotted @ [(real (fst w) + 1 / 2, real (snd w) + 1 / 2, mk, c)]))))"

text \<open>
  The script from the split of the dataset to the table of frauds.  A row of the
  dataset is its feature columns and its label: \<^verbatim>\<open>X = dataset.iloc[:, :-1].values\<close>
  and \<^verbatim>\<open>y = dataset.iloc[:, -1].values\<close>.  \<open>train\<close> stands for the three minisom
  calls of lines 42 to 52, which are handed the scaled \<^verbatim>\<open>X\<close> and nothing else of the
  dataset; it is the trained map as a function of that matrix, for the random numbers
  of one run.
\<close>

definition som_script :: "(vec list \<Rightarrow> som) \<Rightarrow> (vec \<times> int) list \<Rightarrow> error + marker list \<times> vec list" where
  "som_script train dataset =
     (let X0 = map fst dataset;
          y = map snd dataset
      in case fit_transform X0 of
           Inl e \<Rightarrow> Inl e
         | Inr (sc, X) \<Rightarrow>
             (let som = train X
              in case plot_loop som y (enumerate 0 X) [] of
                   Inl e \<Rightarrow> Inl e
                 | Inr plotted \<Rightarrow>
                     (let m = win_map (winner som) X;
                          dist_T = T (distance_map som)
                      in case find_frauds (inverse_row sc) dist_T (95 / 100) m of
                           Inl e \<Rightarrow> Inl e
                         | Inr table \<Rightarrow> Inr (plotted, table))))"

text \<open>What the script leaves in \<^verbatim>\<open>frauds\<close>, or the exception that ends it.\<close>

definition flagged :: "(vec list \<Rightarrow> som) \<Rightarrow> (vec \<times> int) list \<Rightarrow> error + vec list" where
  "flagged train dataset = map_sum id snd (som_script train dataset)"

section \<open>The same stage over a store of arrays\<close>

text \<open>
  NumPy arrays are mutable objects, and the rows that \<^verbatim>\<open>win_map\<close> collects are
  views into \<^verbatim>\<open>X\<close>, not copies.  To see what lines 129 to 150 write, arrays live
  in a store: an address holds a float matrix or the integer vector of labels, and
  \<open>fresh\<close> is the next address to be allocated.  A view is the address of a matrix
  and the index of one of its rows.
\<close>

datatype ndarray = Matrix "vec list" | Labels "int list"

type_synonym addr = nat
type_synonym view = "addr \<times> nat"

record store =
  heap :: "addr \<rightharpoonup> ndarray"
  fresh :: addr

definition alloc :: "ndarray \<Rightarrow> store \<Rightarrow> addr \<times> store" where
  "alloc a h = (fresh h, h\<lparr>heap := (heap h)(fresh h \<mapsto> a), fresh := Suc (fresh h)\<rparr>)"

definition rows_at :: "store \<Rightarrow> addr \<Rightarrow> vec list" where
  "rows_at h a = (case heap h a of Some (Matrix rows) \<Rightarrow> rows | _ \<Rightarrow> [])"

definition read_view :: "store \<Rightarrow> view \<Rightarrow> vec" where
  "read_view h v = rows_at h (fst v) ! snd v"

text \<open>An in-place operation on every row of the matrix at an address (\<^verbatim>\<open>X -= ...\<close>).\<close>

definition update_rows :: "(vec \<Rightarrow> vec) \<Rightarrow> addr \<Rightarrow> store \<Rightarrow> store" where
  "update_rows f a h = h\<lparr>heap := (heap h)(a \<mapsto> Matrix (map f (rows_at h a)))\<rparr>"

text \<open>\<^verbatim>\<open>for x in data\<close> over a matrix yields a view of each row.\<close>

definition iter_rows :: "store \<Rightarrow> addr \<Rightarrow> view list" where
  "iter_rows h a = map (Pair a) [0..<length (rows_at h a)]"

text \<open>
  \<^verbatim>\<open>sc.inverse_transform(node_map)\<close> on a list of views: scikit-learn builds a new
  array from the list (the empty list is refused), then runs \<^verbatim>\<open>X -= self.min_\<close> and
  \<^verbatim>\<open>X /= self.scale_\<close> in place on that new array and returns it.
\<close>

definition inverse_transform_st :: "scaler \<Rightarrow> view list \<Rightarrow> store \<Rightarrow> (error + addr) \<times> store" where
  "inverse_transform_st sc node_map h =
     (if node_map = [] then (Inl ValueError, h)
      else
        let (a, h1) = alloc (Matrix (map (read_view h) node_map)) h;
            h2 = update_rows (\<lambda>r. map2 (-) r (min_of sc)) a h1;
            h3 = update_rows (\<lambda>r. map2 (/) r (scale_of sc)) a h2
        in (Inr a, h3))"

record st_state =
  mappings_st :: "cell \<rightharpoonup> view list"
  winning_nodes_st :: "cell list"
  frauds_st :: "addr list"
  printed_st :: "(nat \<times> nat \<times> vec list) list"

definition visit_st :: "scaler \<Rightarrow> (nat \<Rightarrow> nat \<Rightarrow> real) \<Rightarrow> real \<Rightarrow> nat \<Rightarrow> nat \<Rightarrow>
    st_state \<Rightarrow> store \<Rightarrow> (error + st_state) \<times> store" where
  "visit_st sc dist_T threshold i j s h =
     (if dist_T i j > threshold then
        (let s1 = s\<lparr>winning_nodes_st := winning_nodes_st s @ [(j, i)]\<rparr>;
             (node_map, m') = getitem (mappings_st s1) (j, i);
             s2 = s1\<lparr>mappings_st := m'\<rparr>
         in case inverse_transform_st sc node_map h of
              (Inl e, h') \<Rightarrow> (Inl e, h')
            | (Inr customers, h') \<Rightarrow>
                (Inr (s2\<lparr>printed_st := printed_st s2 @ [(j, i, rows_at h' customers)],
                         frauds_st := frauds_st s2 @ [customers]\<rparr>), h'))
      else (Inr s, h))"

fun inner_loop_st :: "scaler \<Rightarrow> (nat \<Rightarrow> nat \<Rightarrow> real) \<Rightarrow> real \<Rightarrow> nat \<Rightarrow> nat list \<Rightarrow>
    st_state \<Rightarrow> store \<Rightarrow> (error + st_state) \<times> store" where
  "inner_loop_st sc dist_T threshold i [] s h = (Inr s, h)"
| "inner_loop_st sc dist_T threshold i (j # js) s h =
     (case visit_st sc dist_T threshold i j s h of
        (Inl e, h') \<Rightarrow> (Inl e, h')
      | (Inr s', h') \<Rightarrow> inner_loop_st sc dist_T threshold i js s' h')"

fun outer_loop_st :: "scaler \<Rightarrow> (nat \<Rightarrow> nat \<Rightarrow> real) \<Rightarrow> real \<Rightarrow> nat list \<Rightarrow>
    st_state \<Rightarrow> store \<Rightarrow> (error + st_state) \<times> store" where
  "outer_loop_st sc dist_T threshold [] s h = (Inr s, h)"
| "outer_loop_st sc dist_T threshold (i # rest) s h =
     (case inner_loop_st sc dist_T threshold i [0..<10] s h of
        (Inl e, h') \<Rightarrow> (Inl e, h')
      | (Inr s', h') \<Rightarrow> outer_loop_st sc dist_T threshold rest s' h')"

text \<open>\<^verbatim>\<open>np.concatenate\<close> allocates the array it returns.\<close>

definition concatenate_st :: "addr list \<Rightarrow> store \<Rightarrow> (error + addr) \<times> store" where
  "concatenate_st arrays h =
     (if arrays = [] then (Inl ValueError, h)
      else let (a, h') = alloc (Matrix (concat (map (rows_at h) arrays))) h in (Inr a, h'))"

text \<open>
  Lines 129 to 150 over the store; \<open>X\<close> is the address of the scaled feature matrix.
  The result is the address bound to \<^verbatim>\<open>frauds\<close> at the end, or the exception, and
  the store as the stage leaves it in either case.
\<close>

definition fraud_stage :: "scaler \<Rightarrow> som \<Rightarrow> addr \<Rightarrow> store \<Rightarrow> (error + addr) \<times> store" where
  "fraud_stage sc som X h =
     (let m = win_map (\<lambda>x. winner som (read_view h x)) (iter_rows h X);
          dist_T = T (distance_map som);
          s0 = \<lparr>mappings_st = m, winning_nodes_st = [], frauds_st = [], printed_st = []\<rparr>
      in case outer_loop_st sc dist_T (95 / 100) [0..<10] s0 h of
           (Inl e, h') \<Rightarrow> (Inl e, h')
         | (Inr s, h') \<Rightarrow> concatenate_st (frauds_st s) h')"

text \<open>
  \<open>frame h h'\<close>: the store \<open>h'\<close> has every array that \<open>h\<close> had allocated, with
  the contents it had in \<open>h\<close>.
\<close>

definition frame :: "store \<Rightarrow> store \<Rightarrow> bool" where
  "frame h h' = (fresh h \<le> fresh h' \<and> (\<forall>a<fresh h. heap h' a = heap h a))"

text \<open>
  The store model and the model over values describe one computation.  \<open>related\<close>
  is what holds between their loop states: the rows kept under a cell are views into
  \<open>X\<close> that read as the rows of the value model, the arrays collected in
  \<^verbatim>\<open>frauds\<close> hold the rows collected in the value model, and nothing allocated
  before has changed.  \<open>agree\<close> lifts it to results: the same exception, or
  related states.
\<close>

definition related :: "addr \<Rightarrow> store \<Rightarrow> store \<Rightarrow> st_state \<Rightarrow> vec loop_state \<Rightarrow> bool" where
  "related X h0 h sst s \<longleftrightarrow>
     frame h0 h \<and> X < fresh h0 \<and>
     (\<forall>c. \<forall>v\<in>set (lookup (mappings_st sst) c). fst v = X) \<and>
     (\<forall>c. map (read_view h0) (lookup (mappings_st sst) c) = lookup (mappings s) c) \<and>
     winning_nodes_st sst = winning_nodes s \<and>
     map (rows_at h) (frauds_st sst) = frauds s \<and>
     (\<forall>a\<in>set (frauds_st sst). a < fresh h) \<and>
     printed_st sst = printed s"

fun agree :: "addr \<Rightarrow> store \<Rightarrow> (error + st_state) \<times> store \<Rightarrow> error + vec loop_state \<Rightarrow> bool" where
  "agree X h0 (Inl e, h) (Inl e') = (e = e' \<and> frame h0 h)"
| "agree X h0 (Inr sst, h) (Inr s) = related X h0 h sst s"
| "agree X h0 _ _ = False"

section \<open>The elbow loop of K-Means Clustering.py\<close>

text \<open>
  Lines 13 to 17.  \<^verbatim>\<open>KMeans(n_clusters = i, init = 'k-means++', n_init = 10,
  max_iter = 300, random_state = 0)\<close>, \<^verbatim>\<open>fit\<close> and \<^verbatim>\<open>inertia_\<close> are code of
  scikit-learn; \<open>inertia i X\<close> stands for the objective value of the model fitted
  with \<open>i\<close> clusters on \<open>X\<close>.  The script only collects these values.
\<close>

fun elbow_loop :: "(nat \<Rightarrow> 'x \<Rightarrow> real) \<Rightarrow> 'x \<Rightarrow> nat list \<Rightarrow> real list \<Rightarrow> real list" where
  "elbow_loop inertia X [] wcss = wcss"
| "elbow_loop inertia X (i # rest) wcss = elbow_loop inertia X rest (wcss @ [inertia i X])"

definition elbow :: "(nat \<Rightarrow> 'x \<Rightarrow> real) \<Rightarrow> 'x \<Rightarrow> real list" where
  "elbow inertia X = elbow_loop inertia X [1..<11] []"

section \<open>A small trained map and dataset\<close>

text \<open>Concrete inputs on which the definitions above are run.\<close>

definition ex_dist :: "nat \<Rightarrow> nat \<Rightarrow> real" where
  "ex_dist i j = (if (i, j) = (2, 3) then 1 else if (i, j) = (4, 1) then 7 / 10 else 0)"

definition ex_mappings :: "cell \<rightharpoonup> vec list" where
  "ex_mappings = [(3, 2) \<mapsto> [[1 / 2, 0]], (1, 4) \<mapsto> [[1, 0], [0, 0]]]"

definition ex_unscale :: "vec \<Rightarrow> vec" where
  "ex_unscale r = map (\<lambda>x. 2 * x + 1) r"

definition ex_dataset :: "(vec \<times> int) list" where
  "ex_dataset = [([1, 10], 0), ([3, 10], 1), ([2, 10], 0)]"

definition ex_som :: som where
  "ex_som = \<lparr>winner = (\<lambda>x. if hd x \<ge> 1 / 2 then (1, 2) else (0, 0)),
             distance_map = (\<lambda>a b. if (a, b) = (1, 2) then 1 else 0)\<rparr>"



definition ex_train :: "vec list \<Rightarrow> som" where
  "ex_train X = ex_som"

definition ex_store :: store where
  "ex_store = \<lparr>heap = [0 \<mapsto> Matrix [[0, 0], [1, 0], [1 / 2, 0]], 1 \<mapsto> Labels [0, 1, 0]], fresh = 2\<rparr>"

section \<open>The loops as one enumeration\<close>

lemma lookup_getitem: "lookup (snd (getitem m k)) = lookup m"
  by (rule ext) (simp add: lookup_def getitem_def split: option.splits)

lemma visit_below: "\<not> dist_T i j > threshold \<Longrightarrow> visit unscale dist_T threshold i j s = Inr s"
  by (simp add: visit_def)

lemma visit_empty:
  "dist_T i j > threshold \<Longrightarrow> lookup (mappings s) (j, i) = [] \<Longrightarrow>
   visit unscale dist_T threshold i j s = Inl ValueError"
  by (cases "getitem (mappings s) (j, i)")
     (simp add: visit_def inverse_transform_def lookup_def Let_def)

lemma visit_over:
  "dist_T i j > threshold \<Longrightarrow> lookup (mappings s) (j, i) \<noteq> [] \<Longrightarrow>
   visit unscale dist_T threshold i j s =
     Inr (s\<lparr>winning_nodes := winning_nodes s @ [(j, i)],
            mappings := snd (getitem (mappings s) (j, i)),
            printed := printed s @ [(j, i, map unscale (lookup (mappings s) (j, i)))],
            frauds := frauds s @ [map unscale (lookup (mappings s) (j, i))]\<rparr>)"
  by (cases "getitem (mappings s) (j, i)")
     (simp add: visit_def inverse_transform_def lookup_def Let_def)

lemma visit_all_append:
  "visit_all u d t (ps @ qs) s =
     (case visit_all u d t ps s of Inl e \<Rightarrow> Inl e | Inr s' \<Rightarrow> visit_all u d t qs s')"
  by (induction ps arbitrary: s) (auto split: sum.splits)

lemma inner_loop_visit_all:
  "inner_loop u d t i js s = visit_all u d t (map (Pair i) js) s"
  by (induction js arbitrary: s) (auto split: sum.splits)

lemma outer_loop_visit_all:
  "outer_loop u d t rows s = visit_all u d t (List.product rows [0..<10]) s"
  by (induction rows arbitrary: s)
     (auto simp: visit_all_append inner_loop_visit_all split: sum.splits)

lemma visit_all_Inl:
  "\<exists>(i, j) \<in> set (over d t ps). lookup (mappings s) (j, i) = [] \<Longrightarrow>
   visit_all u d t ps s = Inl ValueError"
proof (induction ps arbitrary: s)
  case Nil
  then show ?case by (simp add: over_def)
next
  case (Cons p ps)
  obtain i j where p: "p = (i, j)" by (cases p)
  show ?case
  proof (cases "d i j > t")
    case False
    with Cons show ?thesis by (simp add: p over_def visit_below)
  next
    case True
    show ?thesis
    proof (cases "lookup (mappings s) (j, i) = []")
      case True
      with \<open>d i j > t\<close> show ?thesis by (simp add: p visit_empty)
    next
      case False
      let ?s' = "s\<lparr>winning_nodes := winning_nodes s @ [(j, i)],
            mappings := snd (getitem (mappings s) (j, i)),
            printed := printed s @ [(j, i, map u (lookup (mappings s) (j, i)))],
            frauds := frauds s @ [map u (lookup (mappings s) (j, i))]\<rparr>"
      have "\<exists>(i, j) \<in> set (over d t ps). lookup (mappings ?s') (j, i) = []"
        using Cons.prems False True by (auto simp: p over_def lookup_getitem)
      then have "visit_all u d t ps ?s' = Inl ValueError" by (rule Cons.IH)
      with True False show ?thesis by (simp add: p visit_over)
    qed
  qed
qed

lemma visit_all_Inr:
  "\<forall>(i, j) \<in> set (over d t ps). lookup (mappings s) (j, i) \<noteq> [] \<Longrightarrow>
   \<exists>s'. visit_all u d t ps s = Inr s' \<and>
        lookup (mappings s') = lookup (mappings s) \<and>
        winning_nodes s' = winning_nodes s @ map (\<lambda>(i, j). (j, i)) (over d t ps) \<and>
        frauds s' = frauds s @ map (\<lambda>(i, j). map u (lookup (mappings s) (j, i))) (over d t ps) \<and>
        printed s' = printed s @ map (\<lambda>(i, j). (j, i, map u (lookup (mappings s) (j, i)))) (over d t ps)"
proof (induction ps arbitrary: s)
  case Nil
  then show ?case by (simp add: over_def)
next
  case (Cons p ps)
  obtain i j where p: "p = (i, j)" by (cases p)
  show ?case
  proof (cases "d i j > t")
    case False
    with Cons.IH[of s] Cons.prems show ?thesis by (simp add: p over_def visit_below)
  next
    case True
    with Cons.prems have ne: "lookup (mappings s) (j, i) \<noteq> []" by (simp add: p over_def)
    let ?s' = "s\<lparr>winning_nodes := winning_nodes s @ [(j, i)],
            mappings := snd (getitem (mappings s) (j, i)),
            printed := printed s @ [(j, i, map u (lookup (mappings s) (j, i)))],
            frauds := frauds s @ [map u (lookup (mappings s) (j, i))]\<rparr>"
    have "\<forall>(i, j) \<in> set (over d t ps). lookup (mappings ?s') (j, i) \<noteq> []"
      using Cons.prems True by (auto simp: p over_def lookup_getitem)
    from Cons.IH[OF this] True ne show ?thesis
      by (simp add: p visit_over over_def lookup_getitem)
  qed
qed

lemma grid_order_product: "grid_order = List.product [0..<10] [0..<10]"
  by (simp add: grid_order_def product_concat_map)

lemma selected_over: "selected d t = over d t (List.product [0..<10] [0..<10])"
  by (simp add: selected_def over_def grid_order_product)

lemma set_grid_order: "set grid_order = {(i, j). i < 10 \<and> j < 10}"
  by (auto simp: grid_order_product)

lemma distinct_grid_order: "distinct grid_order"
  by (simp add: grid_order_product distinct_product)

lemma sorted_wrt_product:
  "sorted_wrt (<) xs \<Longrightarrow> sorted_wrt (<) ys \<Longrightarrow> sorted_wrt row_major (List.product xs (ys :: nat list))"
proof (induction xs)
  case Nil
  then show ?case by simp
next
  case (Cons x xs)
  have "sorted_wrt row_major (map (Pair x) ys)"
    using Cons.prems(2) by (simp add: sorted_wrt_map row_major_def)
  moreover have "sorted_wrt row_major (List.product xs ys)"
    using Cons by simp
  moreover have "\<forall>p \<in> set (map (Pair x) ys). \<forall>q \<in> set (List.product xs ys). row_major p q"
    using Cons.prems(1) by (auto simp: row_major_def)
  ultimately show ?case by (simp add: sorted_wrt_append)
qed

lemma sorted_grid_order: "sorted_wrt row_major grid_order"
  unfolding grid_order_product by (rule sorted_wrt_product) simp_all

lemma sorted_selected: "sorted_wrt row_major (selected d t)"
  unfolding selected_def by (rule sorted_wrt_filter) (rule sorted_grid_order)

lemma run_loops_Inl:
  assumes "\<exists>(i, j) \<in> set (selected d t). lookup m (j, i) = []"
  shows "run_loops u d t m = Inl ValueError"
  unfolding run_loops_def outer_loop_visit_all
  by (rule visit_all_Inl) (use assms in \<open>simp add: selected_over init_state_def\<close>)

lemma run_loops_Inr:
  assumes "\<forall>(i, j) \<in> set (selected d t). lookup m (j, i) \<noteq> []"
  shows "\<exists>s'. run_loops u d t m = Inr s' \<and>
        lookup (mappings s') = lookup m \<and>
        winning_nodes s' = map (\<lambda>(i, j). (j, i)) (selected d t) \<and>
        frauds s' = map (\<lambda>(i, j). map u (lookup m (j, i))) (selected d t) \<and>
        printed s' = map (\<lambda>(i, j). (j, i, map u (lookup m (j, i)))) (selected d t)"
proof -
  have "\<forall>(i, j) \<in> set (over d t (List.product [0..<10] [0..<10])).
          lookup (mappings (init_state m)) (j, i) \<noteq> []"
    using assms by (simp add: selected_over init_state_def)
  from visit_all_Inr[OF this, of u] show ?thesis
    by (simp add: run_loops_def outer_loop_visit_all selected_over init_state_def)
qed

lemma find_frauds_eq:
  "find_frauds u d t m =
     (if selected d t = [] \<or> (\<exists>(i, j) \<in> set (selected d t). lookup m (j, i) = [])
      then Inl ValueError
      else Inr (concat (map (\<lambda>(i, j). map u (lookup m (j, i))) (selected d t))))"
proof (cases "\<exists>(i, j) \<in> set (selected d t). lookup m (j, i) = []")
  case True
  then show ?thesis by (simp add: find_frauds_def run_loops_Inl)
next
  case False
  then have "\<forall>(i, j) \<in> set (selected d t). lookup m (j, i) \<noteq> []" by auto
  from run_loops_Inr[OF this, of u] obtain s' where
    "run_loops u d t m = Inr s'"
    "frauds s' = map (\<lambda>(i, j). map u (lookup m (j, i))) (selected d t)" by blast
  with False show ?thesis by (simp add: find_frauds_def concatenate_def)
qed

lemma run_loops_InrD:
  assumes "run_loops u d t m = Inr s"
  shows "(\<forall>(i, j) \<in> set (selected d t). lookup m (j, i) \<noteq> []) \<and>
        lookup (mappings s) = lookup m \<and>
        winning_nodes s = map (\<lambda>(i, j). (j, i)) (selected d t) \<and>
        frauds s = map (\<lambda>(i, j). map u (lookup m (j, i))) (selected d t) \<and>
        printed s = map (\<lambda>(i, j). (j, i, map u (lookup m (j, i)))) (selected d t)"
proof -
  have ne: "\<forall>(i, j) \<in> set (selected d t). lookup m (j, i) \<noteq> []"
  proof (rule ccontr)
    assume "\<not> ?thesis"
    then have "\<exists>(i, j) \<in> set (selected d t). lookup m (j, i) = []" by auto
    from run_loops_Inl[OF this, of u] assms show False by simp
  qed
  from run_loops_Inr[OF ne, of u] assms ne show ?thesis by auto
qed

text \<open>
  Claim C7.  The two loops reach the index pairs \<open>(i, j)\<close> of \<open>dist_T\<close> in the
  fixed order \<open>grid_order\<close>: each pair below 10 by 10 once, row \<open>i\<close> by row,
  and within a row by increasing column \<open>j\<close>.  When the loops end without an
  exception, \<^verbatim>\<open>winning_nodes\<close> is the list of cells \<open>(j, i)\<close> of the pairs over
  the threshold in that order, \<^verbatim>\<open>frauds\<close> holds the inverse-scaled rows of those
  cells in the same order, and the table is their concatenation: all three are
  determined by the distance map, the threshold, the reverse index and the scaler.
\<close>
theorem selector_row_major:
  "run_loops u d t m = Inr s \<Longrightarrow>
     winning_nodes s = map (\<lambda>(i, j). (j, i)) (filter (\<lambda>(i, j). d i j > t) grid_order) \<and>
     frauds s = map (\<lambda>(i, j). map u (lookup m (j, i))) (filter (\<lambda>(i, j). d i j > t) grid_order) \<and>
     find_frauds u d t m = concatenate (frauds s) \<and>
     sorted_wrt row_major grid_order \<and> distinct grid_order \<and>
     set grid_order = {(i, j). i < 10 \<and> j < 10}"
  using run_loops_InrD[of u d t m s]
  by (simp add: selected_def sorted_grid_order distinct_grid_order set_grid_order find_frauds_def)

theorem selector_row_major_witness:
  "\<exists>s. run_loops ex_unscale ex_dist (1 / 2) ex_mappings = Inr s \<and>
       winning_nodes s = [(3, 2), (1, 4)] \<and>
       frauds s = [[[2, 1]], [[3, 1], [1, 1]]] \<and>
       find_frauds ex_unscale ex_dist (1 / 2) ex_mappings = Inr [[2, 1], [3, 1], [1, 1]]"
proof -
  have "map_sum id frauds (run_loops ex_unscale ex_dist (1 / 2) ex_mappings) =
        Inr [[[2, 1]], [[3, 1], [1, 1]]]"
    by code_simp
  then obtain s where s: "run_loops ex_unscale ex_dist (1 / 2) ex_mappings = Inr s"
    and f: "frauds s = [[[2, 1]], [[3, 1], [1, 1]]]"
    by (cases "run_loops ex_unscale ex_dist (1 / 2) ex_mappings") auto
  have w: "map (\<lambda>(i, j). (j, i)) (filter (\<lambda>(i, j). ex_dist i j > 1 / 2) grid_order) = [(3, 2), (1, 4)]"
    by code_simp
  from selector_row_major[OF s] f w show ?thesis
    using s by (simp add: concatenate_def)
qed

lemma selected_empty_iff: "selected d t = [] \<longleftrightarrow> (\<forall>i<10. \<forall>j<10. d i j \<le> t)"
  by (auto simp: selected_def filter_empty_conv set_grid_order not_less)

text \<open>
  Claim C8.  If no entry of the 10 by 10 distance map exceeds the threshold, the loops
  end with \<^verbatim>\<open>frauds\<close> and \<^verbatim>\<open>winning_nodes\<close> empty and \<^verbatim>\<open>np.concatenate\<close>
  raises \<^verbatim>\<open>ValueError\<close>; and for no input at all is the result an empty table.
\<close>
theorem no_cell_over_threshold:
  "((\<forall>i<10. \<forall>j<10. d i j \<le> t) \<longrightarrow>
      (\<exists>s. run_loops u d t m = Inr s \<and> frauds s = [] \<and> winning_nodes s = []) \<and>
      find_frauds u d t m = Inl ValueError) \<and>
   find_frauds u d t m \<noteq> Inr []"
proof (intro conjI impI)
  assume a: "\<forall>i<10. \<forall>j<10. d i j \<le> t"
  then have e: "selected d t = []" by (simp add: selected_empty_iff)
  then have "\<forall>(i, j) \<in> set (selected d t). lookup m (j, i) \<noteq> []" by simp
  from run_loops_Inr[OF this, of u] e
  show "\<exists>s. run_loops u d t m = Inr s \<and> frauds s = [] \<and> winning_nodes s = []" by auto
  from e show "find_frauds u d t m = Inl ValueError" by (simp add: find_frauds_eq)
next
  show "find_frauds u d t m \<noteq> Inr []"
  proof
    assume "find_frauds u d t m = Inr []"
    then have ne: "selected d t \<noteq> []"
      and all: "\<forall>(i, j) \<in> set (selected d t). lookup m (j, i) \<noteq> []"
      and c: "concat (map (\<lambda>(i, j). map u (lookup m (j, i))) (selected d t)) = []"
      by (auto simp: find_frauds_eq split: if_splits)
    from ne obtain p ps where p: "selected d t = p # ps" by (cases "selected d t") auto
    obtain i j where "p = (i, j)" by (cases p)
    with p all c show False by simp
  qed
qed

theorem no_cell_over_threshold_witness:
  "find_frauds ex_unscale (\<lambda>i j. 0) (95 / 100) ex_mappings = Inl ValueError \<and>
   (\<exists>s. run_loops ex_unscale (\<lambda>i j. 0) (95 / 100) ex_mappings = Inr s \<and> frauds s = [])"
  using no_cell_over_threshold[of "\<lambda>i j. 0" "95 / 100" ex_unscale ex_mappings] by auto







section \<open>The scaler\<close>

lemma fit_Inr:
  assumes "fit X = Inr sc"
  shows "well_shaped X" and "sc = fitted X"
  using assms unfolding fit_def by (simp_all split: if_splits)

lemma scale_of_fitted:
  "scale_of (fitted X) = map (\<lambda>r. (1 - 0) / handle_zeros_in_scale r)
           (map2 (-) (map amax (map (column X) [0..<length (hd X)]))
                     (map amin (map (column X) [0..<length (hd X)])))"
  unfolding fitted_def Let_def by (simp only: scaler.simps)

lemma min_of_fitted:
  "min_of (fitted X) = map2 (\<lambda>mn s. 0 - mn * s)
      (map amin (map (column X) [0..<length (hd X)])) (scale_of (fitted X))"
  unfolding fitted_def Let_def by (simp only: scaler.simps)

lemma fit_lengths:
  assumes "fit X = Inr sc"
  shows "length (scale_of sc) = length (hd X)" and "length (min_of sc) = length (hd X)"
proof -
  show 1: "length (scale_of sc) = length (hd X)"
    unfolding fit_Inr(2)[OF assms] scale_of_fitted by simp
  show "length (min_of sc) = length (hd X)"
    using 1 unfolding fit_Inr(2)[OF assms] by (subst min_of_fitted) simp
qed

lemma handle_zeros_nonzero: "handle_zeros_in_scale r \<noteq> 0"
  by (simp add: handle_zeros_in_scale_def)

lemma fit_scale_nonzero:
  assumes "fit X = Inr sc" and "s \<in> set (scale_of sc)"
  shows "s \<noteq> 0"
proof -
  from assms(2) obtain r where "s = (1 - 0) / handle_zeros_in_scale r"
    unfolding fit_Inr(2)[OF assms(1)] scale_of_fitted by auto
  then show ?thesis by (simp add: handle_zeros_nonzero)
qed

lemma fit_rows:
  assumes "fit X = Inr sc" and "r \<in> set X"
  shows "length r = length (hd X)"
  using fit_Inr(1)[OF assms(1)] assms(2) unfolding well_shaped_def list_all_iff by blast

lemma inverse_transform_row:
  assumes "length r = length (scale_of sc)" "length (min_of sc) = length (scale_of sc)"
    and "\<forall>s \<in> set (scale_of sc). s \<noteq> 0"
  shows "inverse_row sc (transform_row sc r) = r"
proof (rule nth_equalityI)
  show "length (inverse_row sc (transform_row sc r)) = length r"
    using assms by (simp add: inverse_row_def transform_row_def)
next
  fix i assume "i < length (inverse_row sc (transform_row sc r))"
  then have i: "i < length r" using assms by (simp add: inverse_row_def transform_row_def)
  then have "scale_of sc ! i \<noteq> 0" using assms by simp
  then show "inverse_row sc (transform_row sc r) ! i = r ! i"
    using i assms by (simp add: inverse_row_def transform_row_def)
qed

lemma round_trip_fitted:
  assumes "fit X = Inr sc" and "r \<in> set X"
  shows "inverse_row sc (transform_row sc r) = r"
proof (rule inverse_transform_row)
  show "length r = length (scale_of sc)"
    using fit_lengths[OF assms(1)] fit_rows[OF assms] by simp
  show "length (min_of sc) = length (scale_of sc)"
    using fit_lengths[OF assms(1)] by simp
  show "\<forall>s \<in> set (scale_of sc). s \<noteq> 0"
    using fit_scale_nonzero[OF assms(1)] by blast
qed

text \<open>
  Claim C4.  In exact arithmetic, with the scaler fitted on the dataset \<open>X\<close> by
  \<^verbatim>\<open>fit_transform\<close>: for every row \<open>r\<close> of \<open>X\<close>, the inverse transform of the
  scaled row is \<open>r\<close> again, and the scaled row is a row of the matrix that
  \<^verbatim>\<open>fit_transform\<close> returns.
\<close>
theorem scaling_round_trip:
  assumes "fit_transform X = Inr (sc, Xs)" and "r \<in> set X"
  shows "inverse_row sc (transform_row sc r) = r \<and> transform_row sc r \<in> set Xs"
proof -
  from assms(1) have f: "fit X = Inr sc" and Xs: "Xs = map (transform_row sc) X"
    by (auto simp: fit_transform_def split: sum.splits)
  from round_trip_fitted[OF f assms(2)] Xs assms(2) show ?thesis by simp
qed

theorem scaling_round_trip_witness:
  "fit_transform [[1, 10], [3, 10], [2, 10]] =
     Inr (\<lparr>data_min_of = [1, 10], data_max_of = [3, 10], scale_of = [1 / 2, 1], min_of = [- 1 / 2, - 10]\<rparr>,
          [[0, 0], [1, 0], [1 / 2, 0]]) \<and>
   inverse_row \<lparr>data_min_of = [1, 10], data_max_of = [3, 10], scale_of = [1 / 2, 1], min_of = [- 1 / 2, - 10]\<rparr>
     (transform_row \<lparr>data_min_of = [1, 10], data_max_of = [3, 10], scale_of = [1 / 2, 1], min_of = [- 1 / 2, - 10]\<rparr>
        [3, 10]) = [3, 10] \<and>
   transform_row \<lparr>data_min_of = [1, 10], data_max_of = [3, 10], scale_of = [1 / 2, 1], min_of = [- 1 / 2, - 10]\<rparr>
        [3, 10] = [1, 0]"
proof -
  have ft: "fit_transform [[1, 10], [3, 10], [2, 10]] =
     Inr (\<lparr>data_min_of = [1, 10], data_max_of = [3, 10], scale_of = [1 / 2, 1], min_of = [- 1 / 2, - 10]\<rparr>,
          [[0, 0], [1, 0], [1 / 2, 0]])"
    by code_simp
  have r: "[3, 10] \<in> set [[1, 10], [3, 10], [2, 10 :: real]]" by simp
  have t: "transform_row \<lparr>data_min_of = [1, 10], data_max_of = [3, 10], scale_of = [1 / 2, 1], min_of = [- 1 / 2, - 10]\<rparr>
        [3, 10] = [1, 0]"
    by code_simp
  from scaling_round_trip[OF ft r] ft t show ?thesis by blast
qed

section \<open>The plot and the labels\<close>

lemma py_index_binary:
  "l = 0 \<or> l = 1 \<Longrightarrow> py_index markers l = Inr (markers ! nat l) \<and> py_index colors l = Inr (colors ! nat l)"
  by (auto simp: py_index_def markers_def colors_def)

lemma py_index_nat: "i < length y \<Longrightarrow> py_index y (int i) = Inr (y ! i)"
  by (simp add: py_index_def)

lemma plot_loop_binary:
  assumes "\<forall>l \<in> set y. l = 0 \<or> l = 1" and "\<forall>(i, x) \<in> set ixs. i < length y"
  shows "\<exists>out. plot_loop som y ixs plotted = Inr out"
  using assms(2)
proof (induction ixs arbitrary: plotted)
  case Nil
  then show ?case by simp
next
  case (Cons p ixs)
  obtain i x where p: "p = (i, x)" by (cases p)
  with Cons.prems have i: "i < length y" by simp
  with assms(1) have "y ! i = 0 \<or> y ! i = 1" by simp
  from py_index_binary[OF this] py_index_nat[OF i] Cons.IH Cons.prems
  show ?case by (simp add: p Let_def)
qed

lemma enumerate_bound: "\<forall>(i, x) \<in> set (enumerate 0 xs). i < length xs"
  by (auto simp: in_set_enumerate_eq)

lemma fit_transform_length: "fit_transform X0 = Inr (sc, X) \<Longrightarrow> length X = length X0"
  by (auto simp: fit_transform_def split: sum.splits)

lemma flagged_binary:
  assumes "\<forall>l \<in> set (map snd d). l = 0 \<or> l = 1"
  shows "flagged train d =
     (case fit_transform (map fst d) of
        Inl e \<Rightarrow> Inl e
      | Inr (sc, X) \<Rightarrow>
          find_frauds (inverse_row sc) (T (distance_map (train X))) (95 / 100)
            (win_map (winner (train X)) X))"
proof (cases "fit_transform (map fst d)")
  case (Inl e)
  then show ?thesis by (simp add: flagged_def som_script_def)
next
  case (Inr p)
  obtain sc X where p: "p = (sc, X)" by (cases p)
  from Inr p have len: "length X = length d" by (simp add: fit_transform_length[of "map fst d" sc X])
  have "\<forall>(i, x) \<in> set (enumerate 0 X). i < length (map snd d)"
    using enumerate_bound[of X] len by simp
  from plot_loop_binary[OF assms this] obtain out where
    "plot_loop (train X) (map snd d) (enumerate 0 X) [] = Inr out" by blast
  with Inr p show ?thesis
    by (simp add: flagged_def som_script_def Let_def split: sum.splits)
qed

text \<open>
  Claim C9.  Two datasets with the same feature columns and binary labels (each 0 or
  1), run with the same training function, end alike: with the same table of frauds,
  or with the same exception.  The labels reach only the markers of the plot.
\<close>
theorem label_noninterference:
  assumes "map fst d1 = map fst d2"
    and "\<forall>l \<in> set (map snd d1). l = 0 \<or> l = 1"
    and "\<forall>l \<in> set (map snd d2). l = 0 \<or> l = 1"
  shows "flagged train d1 = flagged train d2"
  unfolding flagged_binary[OF assms(2)] flagged_binary[OF assms(3)] assms(1) ..


theorem label_noninterference_witness:
  "flagged ex_train ex_dataset = flagged ex_train [([1, 10], 1), ([3, 10], 0), ([2, 10], 1)] \<and>
   flagged ex_train ex_dataset = Inr [[3, 10], [2, 10]] \<and>
   som_script ex_train ex_dataset \<noteq> som_script ex_train [([1, 10], 1), ([3, 10], 0), ([2, 10], 1)]"
proof -
  have a: "map fst ex_dataset = map fst [([1, 10], 1 :: int), ([3, 10], 0), ([2, 10 :: real], 1)]"
    by (simp add: ex_dataset_def)
  have b: "\<forall>l \<in> set (map snd ex_dataset). l = 0 \<or> l = 1"
    by (simp add: ex_dataset_def)
  have c: "\<forall>l \<in> set (map snd [([1, 10], 1 :: int), ([3, 10], 0), ([2, 10 :: real], 1)]). l = 0 \<or> l = 1"
    by simp
  have d: "flagged ex_train ex_dataset = Inr [[3, 10], [2, 10]]"
    by code_simp
  have e: "som_script ex_train ex_dataset \<noteq> som_script ex_train [([1, 10], 1), ([3, 10], 0), ([2, 10], 1)]"
    by code_simp
  from label_noninterference[OF a b c, of ex_train] d e show ?thesis by blast
qed

section \<open>The reverse index\<close>

lemma lookup_upd: "lookup (m(k \<mapsto> v)) c = (if c = k then v else lookup m c)"
  by (simp add: lookup_def getitem_def split: option.splits)

lemma win_map_loop_lookup:
  "lookup (win_map_loop w data m) c = lookup m c @ filter (\<lambda>x. w x = c) data"
proof (induction data arbitrary: m)
  case Nil
  then show ?case by simp
next
  case (Cons x data)
  obtain l m' where g: "getitem m (w x) = (l, m')" by (cases "getitem m (w x)")
  then have l: "l = lookup m (w x)" by (simp add: lookup_def)
  have m': "lookup m' = lookup m" using lookup_getitem[of m "w x"] g by simp
  have "win_map_loop w (x # data) m = win_map_loop w data (m'(w x \<mapsto> l @ [x]))"
    by (simp add: g)
  then have "lookup (win_map_loop w (x # data) m) c =
             lookup (m'(w x \<mapsto> l @ [x])) c @ filter (\<lambda>x. w x = c) data"
    by (simp only: Cons.IH)
  also have "lookup (m'(w x \<mapsto> l @ [x])) c = (if c = w x then l @ [x] else lookup m' c)"
    by (rule lookup_upd)
  finally show ?case using l m' by auto
qed

lemma lookup_empty: "lookup Map.empty c = []"
  by (simp add: lookup_def getitem_def)

lemma lookup_win_map: "lookup (win_map w data) c = filter (\<lambda>x. w x = c) data"
  by (simp add: win_map_def win_map_loop_lookup lookup_empty)

lemma dom_getitem: "dom (snd (getitem m k)) = insert k (dom m)"
  by (auto simp: getitem_def split: option.splits)

lemma win_map_loop_dom: "dom (win_map_loop w data m) = dom m \<union> w ` set data"
proof (induction data arbitrary: m)
  case Nil
  then show ?case by simp
next
  case (Cons x data)
  obtain l m' where g: "getitem m (w x) = (l, m')" by (cases "getitem m (w x)")
  have "dom m' = insert (w x) (dom m)" using dom_getitem[of m "w x"] g by simp
  then show ?case by (auto simp: g Cons.IH)
qed

lemma dom_win_map: "dom (win_map w data) = w ` set data"
  by (simp add: win_map_def win_map_loop_dom)

lemma sum_length_filter_keys:
  assumes "finite S" and "w ` set data \<subseteq> S"
  shows "(\<Sum>c\<in>S. length (filter (\<lambda>x. w x = c) data)) = length data"
  using assms(2)
proof (induction data)
  case Nil
  then show ?case by simp
next
  case (Cons x data)
  have "(\<Sum>c\<in>S. length (filter (\<lambda>x. w x = c) (x # data))) =
        (\<Sum>c\<in>S. (if c = w x then 1 else 0) + length (filter (\<lambda>x. w x = c) data))"
    by (rule sum.cong) auto
  also have "\<dots> = (\<Sum>c\<in>S. (if c = w x then 1 else 0)) + (\<Sum>c\<in>S. length (filter (\<lambda>x. w x = c) data))"
    by (simp add: sum.distrib)
  also have "(\<Sum>c\<in>S. (if c = w x then 1 else 0 :: nat)) = 1"
    using assms(1) Cons.prems by (simp add: sum.delta)
  finally show ?case using Cons by simp
qed

text \<open>
  Claim C5.  The reverse index \<^verbatim>\<open>win_map\<close> builds over the rows \<open>data\<close> keeps
  under each cell exactly the rows won by that cell, in the order of the data.  So a
  row is listed under a cell if and only if the cell is its winner; the rows of all
  cells together are the rows of the data; the keys are the cells that win some row;
  and the lists of the keys have, in total, as many entries as the data has rows, so
  that no row is listed twice.
\<close>
theorem win_map_partition:
  "(\<forall>c. lookup (win_map w data) c = filter (\<lambda>x. w x = c) data) \<and>
   (\<forall>x\<in>set data. \<forall>c. x \<in> set (lookup (win_map w data) c) \<longleftrightarrow> c = w x) \<and>
   (\<Union>c. set (lookup (win_map w data) c)) = set data \<and>
   dom (win_map w data) = w ` set data \<and>
   (\<Sum>c\<in>dom (win_map w data). length (lookup (win_map w data) c)) = length data"
proof (intro conjI)
  show "\<forall>c. lookup (win_map w data) c = filter (\<lambda>x. w x = c) data"
    by (simp add: lookup_win_map)
  show "\<forall>x\<in>set data. \<forall>c. x \<in> set (lookup (win_map w data) c) \<longleftrightarrow> c = w x"
    by (auto simp: lookup_win_map)
  show "(\<Union>c. set (lookup (win_map w data) c)) = set data"
    by (auto simp: lookup_win_map)
  show "dom (win_map w data) = w ` set data"
    by (rule dom_win_map)
  show "(\<Sum>c\<in>dom (win_map w data). length (lookup (win_map w data) c)) = length data"
    unfolding dom_win_map lookup_win_map
    by (rule sum_length_filter_keys) simp_all
qed

theorem win_map_partition_witness:
  "lookup (win_map (winner ex_som) [[0, 0], [1, 0], [1 / 2, 0]]) (1, 2) = [[1, 0], [1 / 2, 0]] \<and>
   lookup (win_map (winner ex_som) [[0, 0], [1, 0], [1 / 2, 0]]) (0, 0) = [[0, 0]] \<and>
   lookup (win_map (winner ex_som) [[0, 0], [1, 0], [1 / 2, 0]]) (5, 5) = [] \<and>
   dom (win_map (winner ex_som) [[0, 0], [1, 0], [1 / 2, 0]]) = {(0, 0), (1, 2)}"
proof -
  have w: "winner ex_som [0, 0] = (0, 0)" "winner ex_som [1, 0] = (1, 2)" "winner ex_som [1 / 2, 0] = (1, 2)"
    by (simp_all add: ex_som_def)
  from win_map_partition[of "winner ex_som" "[[0, 0], [1, 0], [1 / 2, 0]]"] w
  show ?thesis by auto
qed




section \<open>The table of frauds\<close>







section \<open>What the stage writes\<close>

lemma frame_refl: "frame h h"
  by (simp add: frame_def)

lemma frame_trans: "frame h h' \<Longrightarrow> frame h' h'' \<Longrightarrow> frame h h''"
  by (auto simp: frame_def)

lemma frame_alloc: "alloc a h = (p, h') \<Longrightarrow> frame h h' \<and> p = fresh h \<and> fresh h' = Suc (fresh h)"
  by (auto simp: alloc_def frame_def)

lemma frame_update_rows: "fresh h0 \<le> a \<Longrightarrow> frame h0 h \<Longrightarrow> frame h0 (update_rows f a h)"
  by (auto simp: update_rows_def frame_def)

lemma frame_inverse_transform_st:
  assumes "inverse_transform_st sc node_map h = (r, h')"
  shows "frame h h'"
proof (cases "node_map = []")
  case True
  with assms show ?thesis by (simp add: inverse_transform_st_def frame_refl)
next
  case False
  obtain a h1 where al: "alloc (Matrix (map (read_view h) node_map)) h = (a, h1)"
    by (cases "alloc (Matrix (map (read_view h) node_map)) h")
  from frame_alloc[OF al] have f1: "frame h h1" and a: "fresh h \<le> a" by simp_all
  have "frame h (update_rows (\<lambda>r. map2 (/) r (scale_of sc)) a
                  (update_rows (\<lambda>r. map2 (-) r (min_of sc)) a h1))"
    by (intro frame_update_rows a f1)
  with assms False al show ?thesis by (simp add: inverse_transform_st_def Let_def)
qed

lemma frame_visit_st:
  assumes "visit_st sc d t i j s h = (r, h')"
  shows "frame h h'"
proof (cases "d i j > t")
  case False
  with assms show ?thesis by (simp add: visit_st_def frame_refl)
next
  case True
  obtain node_map m' where g: "getitem (mappings_st s) (j, i) = (node_map, m')"
    by (cases "getitem (mappings_st s) (j, i)")
  obtain r1 h1 where it: "inverse_transform_st sc node_map h = (r1, h1)"
    by (cases "inverse_transform_st sc node_map h")
  from assms True g it have "h' = h1"
    by (cases r1) (simp_all add: visit_st_def Let_def)
  with frame_inverse_transform_st[OF it] show ?thesis by simp
qed

lemma frame_inner_loop_st:
  "inner_loop_st sc d t i js s h = (r, h') \<Longrightarrow> frame h h'"
proof (induction js arbitrary: s h)
  case Nil
  then show ?case by (simp add: frame_refl)
next
  case (Cons j js)
  obtain r1 h1 where v: "visit_st sc d t i j s h = (r1, h1)"
    by (cases "visit_st sc d t i j s h")
  note f1 = frame_visit_st[OF v]
  show ?case
  proof (cases r1)
    case (Inl e)
    with Cons.prems v f1 show ?thesis by simp
  next
    case (Inr s1)
    with Cons.prems v have "inner_loop_st sc d t i js s1 h1 = (r, h')" by simp
    from frame_trans[OF f1 Cons.IH[OF this]] show ?thesis .
  qed
qed

lemma frame_outer_loop_st:
  "outer_loop_st sc d t rows s h = (r, h') \<Longrightarrow> frame h h'"
proof (induction rows arbitrary: s h)
  case Nil
  then show ?case by (simp add: frame_refl)
next
  case (Cons i rows)
  obtain r1 h1 where v: "inner_loop_st sc d t i [0..<10] s h = (r1, h1)"
    by (cases "inner_loop_st sc d t i [0..<10] s h")
  note f1 = frame_inner_loop_st[OF v]
  show ?case
  proof (cases r1)
    case (Inl e)
    with Cons.prems v f1 show ?thesis by simp
  next
    case (Inr s1)
    with Cons.prems v have "outer_loop_st sc d t rows s1 h1 = (r, h')" by simp
    from frame_trans[OF f1 Cons.IH[OF this]] show ?thesis .
  qed
qed

lemma frame_concatenate_st:
  "concatenate_st arrays h = (r, h') \<Longrightarrow> frame h h' \<and> (\<forall>a. r = Inr a \<longrightarrow> a = fresh h)"
  by (cases "arrays = []") (auto simp: concatenate_st_def frame_refl alloc_def frame_def Let_def)

lemma frame_fraud_stage:
  assumes "fraud_stage sc som X h = (r, h')"
  shows "frame h h' \<and> (\<forall>a. r = Inr a \<longrightarrow> fresh h \<le> a)"
proof -
  let ?s0 = "\<lparr>mappings_st = win_map (\<lambda>x. winner som (read_view h x)) (iter_rows h X),
              winning_nodes_st = [], frauds_st = [], printed_st = []\<rparr>"
  obtain r1 h1 where o: "outer_loop_st sc (T (distance_map som)) (95 / 100) [0..<10] ?s0 h = (r1, h1)"
    by (cases "outer_loop_st sc (T (distance_map som)) (95 / 100) [0..<10] ?s0 h")
  note f1 = frame_outer_loop_st[OF o]
  show ?thesis
  proof (cases r1)
    case (Inl e)
    with assms o f1 show ?thesis by (auto simp: fraud_stage_def Let_def)
  next
    case (Inr s1)
    with assms o have c: "concatenate_st (frauds_st s1) h1 = (r, h')"
      by (simp add: fraud_stage_def Let_def)
    from frame_concatenate_st[OF c] f1 show ?thesis
      by (auto intro: frame_trans simp: frame_def)
  qed
qed

text \<open>
  Claim C10.  Lines 129 to 150, run over a store in which the feature matrix \<open>X\<close>
  and the label vector \<open>y\<close> are allocated, leave both arrays with the contents
  they had, whether the stage ends with a table or with an exception; the table it
  returns is an array of its own, at an address other than theirs.
\<close>
theorem fraud_stage_frame:
  assumes "X < fresh h" and "y < fresh h"
    and "fraud_stage sc som X h = (r, h')"
  shows "heap h' X = heap h X \<and> heap h' y = heap h y \<and> (\<forall>a. r = Inr a \<longrightarrow> a \<noteq> X \<and> a \<noteq> y)"
  using frame_fraud_stage[OF assms(3)] assms(1,2) by (auto simp: frame_def)


theorem fraud_stage_frame_witness:
  "fst (fraud_stage (fitted [[1, 10], [3, 10], [2, 10]]) ex_som 0 ex_store) = Inr 3 \<and>
   rows_at (snd (fraud_stage (fitted [[1, 10], [3, 10], [2, 10]]) ex_som 0 ex_store)) 3 = [[3, 10], [2, 10]] \<and>
   heap (snd (fraud_stage (fitted [[1, 10], [3, 10], [2, 10]]) ex_som 0 ex_store)) 0 =
     Some (Matrix [[0, 0], [1, 0], [1 / 2, 0]]) \<and>
   heap (snd (fraud_stage (fitted [[1, 10], [3, 10], [2, 10]]) ex_som 0 ex_store)) 1 =
     Some (Labels [0, 1, 0])"
proof -
  have r: "fst (fraud_stage (fitted [[1, 10], [3, 10], [2, 10]]) ex_som 0 ex_store) = Inr 3"
    by code_simp
  have t: "rows_at (snd (fraud_stage (fitted [[1, 10], [3, 10], [2, 10]]) ex_som 0 ex_store)) 3 = [[3, 10], [2, 10]]"
    by code_simp
  have x: "0 < fresh ex_store" and y: "1 < fresh ex_store"
    by (simp_all add: ex_store_def)
  have p: "fraud_stage (fitted [[1, 10], [3, 10], [2, 10]]) ex_som 0 ex_store =
      (fst (fraud_stage (fitted [[1, 10], [3, 10], [2, 10]]) ex_som 0 ex_store),
       snd (fraud_stage (fitted [[1, 10], [3, 10], [2, 10]]) ex_som 0 ex_store))"
    by simp
  have h0: "heap ex_store 0 = Some (Matrix [[0, 0], [1, 0], [1 / 2, 0]])"
    and h1: "heap ex_store 1 = Some (Labels [0, 1, 0])"
    by (simp_all add: ex_store_def)
  from fraud_stage_frame[OF x y p] r t h0 h1 show ?thesis by simp
qed

section \<open>The store model and the value model agree\<close>

lemma rows_at_frame: "frame h0 h \<Longrightarrow> a < fresh h0 \<Longrightarrow> rows_at h a = rows_at h0 a"
  by (simp add: frame_def rows_at_def)

lemma read_view_frame: "frame h0 h \<Longrightarrow> fst v < fresh h0 \<Longrightarrow> read_view h v = read_view h0 v"
  by (simp add: read_view_def rows_at_frame)

lemma inverse_transform_st_Inr:
  assumes "vs \<noteq> []"
  shows "inverse_transform_st sc vs h =
     (Inr (fresh h),
      h\<lparr>heap := (heap h)(fresh h \<mapsto> Matrix (map (inverse_row sc) (map (read_view h) vs))),
        fresh := Suc (fresh h)\<rparr>)"
  using assms
  by (simp add: inverse_transform_st_def alloc_def update_rows_def rows_at_def Let_def
      inverse_row_def comp_def)

lemma inverse_transform_st_Nil: "inverse_transform_st sc [] h = (Inl ValueError, h)"
  by (simp add: inverse_transform_st_def)

lemma visit_agree:
  assumes "related X h0 h sst s"
  shows "agree X h0 (visit_st sc d t i j sst h) (visit (inverse_row sc) d t i j s)"
proof (cases "d i j > t")
  case False
  with assms show ?thesis by (simp add: visit_st_def visit_def)
next
  case True
  from assms have fr: "frame h0 h" and X: "X < fresh h0"
    and views: "\<forall>c. \<forall>v\<in>set (lookup (mappings_st sst) c). fst v = X"
    and mp: "\<forall>c. map (read_view h0) (lookup (mappings_st sst) c) = lookup (mappings s) c"
    and wn: "winning_nodes_st sst = winning_nodes s"
    and fs: "map (rows_at h) (frauds_st sst) = frauds s"
    and fb: "\<forall>a\<in>set (frauds_st sst). a < fresh h"
    and pr: "printed_st sst = printed s"
    by (simp_all add: related_def)
  obtain vs m' where g: "getitem (mappings_st sst) (j, i) = (vs, m')"
    by (cases "getitem (mappings_st sst) (j, i)")
  then have vs: "vs = lookup (mappings_st sst) (j, i)" by (simp add: lookup_def)
  have m': "lookup m' = lookup (mappings_st sst)"
    using lookup_getitem[of "mappings_st sst" "(j, i)"] g by simp
  let ?rows = "lookup (mappings s) (j, i)"
  have rows: "map (read_view h) vs = ?rows"
  proof -
    have "map (read_view h) vs = map (read_view h0) vs"
      by (rule map_cong[OF refl]) (use views X fr vs in \<open>simp add: read_view_frame\<close>)
    with mp vs show ?thesis by simp
  qed
  show ?thesis
  proof (cases "vs = []")
    case True
    with rows have e: "?rows = []" by simp
    have "visit_st sc d t i j sst h = (Inl ValueError, h)"
      using \<open>d i j > t\<close> g True by (simp add: visit_st_def inverse_transform_st_Nil)
    moreover have "visit (inverse_row sc) d t i j s = Inl ValueError"
      using \<open>d i j > t\<close> e by (rule visit_empty)
    ultimately show ?thesis using fr by simp
  next
    case False
    with rows have ne: "?rows \<noteq> []" by auto
    let ?h' = "h\<lparr>heap := (heap h)(fresh h \<mapsto> Matrix (map (inverse_row sc) ?rows)),
        fresh := Suc (fresh h)\<rparr>"
    let ?sst' = "sst\<lparr>winning_nodes_st := winning_nodes_st sst @ [(j, i)],
          mappings_st := m',
          printed_st := printed_st sst @ [(j, i, map (inverse_row sc) ?rows)],
          frauds_st := frauds_st sst @ [fresh h]\<rparr>"
    let ?s' = "s\<lparr>winning_nodes := winning_nodes s @ [(j, i)],
            mappings := snd (getitem (mappings s) (j, i)),
            printed := printed s @ [(j, i, map (inverse_row sc) ?rows)],
            frauds := frauds s @ [map (inverse_row sc) ?rows]\<rparr>"
    have new: "rows_at ?h' (fresh h) = map (inverse_row sc) ?rows"
      by (simp add: rows_at_def)
    have vst: "visit_st sc d t i j sst h = (Inr ?sst', ?h')"
      using \<open>d i j > t\<close> False g rows
      by (simp add: visit_st_def inverse_transform_st_Inr rows_at_def)
    have vv: "visit (inverse_row sc) d t i j s = Inr ?s'"
      using \<open>d i j > t\<close> ne by (rule visit_over)
    have old: "\<And>a. a < fresh h \<Longrightarrow> rows_at ?h' a = rows_at h a"
      by (simp add: rows_at_def)
    have fr': "frame h0 ?h'"
      using fr by (auto simp: frame_def)
    have mfs: "map (rows_at ?h') (frauds_st sst) = map (rows_at h) (frauds_st sst)"
      by (rule map_cong[OF refl]) (use fb old in blast)
    have "related X h0 ?h' ?sst' ?s'"
      unfolding related_def
    proof (intro conjI)
      show "frame h0 ?h'" by (rule fr')
      show "X < fresh h0" by (rule X)
      show "\<forall>c. \<forall>v\<in>set (lookup (mappings_st ?sst') c). fst v = X"
        using views by (simp add: m')
      show "\<forall>c. map (read_view h0) (lookup (mappings_st ?sst') c) = lookup (mappings ?s') c"
        using mp by (simp add: m' lookup_getitem)
      show "winning_nodes_st ?sst' = winning_nodes ?s'"
        using wn by simp
      show "map (rows_at ?h') (frauds_st ?sst') = frauds ?s'"
        using fs new mfs by simp
      show "\<forall>a\<in>set (frauds_st ?sst'). a < fresh ?h'"
        using fb by auto
      show "printed_st ?sst' = printed ?s'"
        using pr by simp
    qed
    with vst vv show ?thesis by simp
  qed
qed

lemma agree_cases:
  assumes "agree X h0 (r, h) v"
  obtains (err) e where "r = Inl e" "v = Inl e" "frame h0 h"
        | (ok) sst s where "r = Inr sst" "v = Inr s" "related X h0 h sst s"
  using assms by (cases r; cases v) auto

lemma inner_loop_agree:
  "related X h0 h sst s \<Longrightarrow>
   agree X h0 (inner_loop_st sc d t i js sst h) (inner_loop (inverse_row sc) d t i js s)"
proof (induction js arbitrary: sst s h)
  case Nil
  then show ?case by simp
next
  case (Cons j js)
  obtain r1 h1 where v: "visit_st sc d t i j sst h = (r1, h1)"
    by (cases "visit_st sc d t i j sst h")
  from visit_agree[OF Cons.prems, of sc d t i j] v
  have "agree X h0 (r1, h1) (visit (inverse_row sc) d t i j s)" by simp
  then show ?case
  proof (cases rule: agree_cases)
    case (err e)
    with v show ?thesis by simp
  next
    case (ok sst' s')
    with v Cons.IH[OF ok(3)] show ?thesis by simp
  qed
qed

lemma outer_loop_agree:
  "related X h0 h sst s \<Longrightarrow>
   agree X h0 (outer_loop_st sc d t rows sst h) (outer_loop (inverse_row sc) d t rows s)"
proof (induction rows arbitrary: sst s h)
  case Nil
  then show ?case by simp
next
  case (Cons i rows)
  obtain r1 h1 where v: "inner_loop_st sc d t i [0..<10] sst h = (r1, h1)"
    by (cases "inner_loop_st sc d t i [0..<10] sst h")
  from inner_loop_agree[OF Cons.prems, of sc d t i "[0..<10]"] v
  have "agree X h0 (r1, h1) (inner_loop (inverse_row sc) d t i [0..<10] s)" by simp
  then show ?case
  proof (cases rule: agree_cases)
    case (err e)
    with v show ?thesis by simp
  next
    case (ok sst' s')
    with v Cons.IH[OF ok(3)] show ?thesis by simp
  qed
qed

lemma map_read_view_iter_rows: "map (read_view h) (iter_rows h X) = rows_at h X"
  by (simp add: iter_rows_def read_view_def comp_def map_nth)

lemma related_init:
  assumes "X < fresh h"
  shows "related X h h
     \<lparr>mappings_st = win_map (\<lambda>x. winner som (read_view h x)) (iter_rows h X),
       winning_nodes_st = [], frauds_st = [], printed_st = []\<rparr>
     (init_state (win_map (winner som) (rows_at h X)))"
  unfolding related_def
proof (intro conjI)
  show "frame h h" by (rule frame_refl)
  show "X < fresh h" by (rule assms)
  show "\<forall>c. \<forall>v\<in>set (lookup (mappings_st
      \<lparr>mappings_st = win_map (\<lambda>x. winner som (read_view h x)) (iter_rows h X),
       winning_nodes_st = [], frauds_st = [], printed_st = []\<rparr>) c). fst v = X"
    by (auto simp: lookup_win_map iter_rows_def)
  show "\<forall>c. map (read_view h) (lookup (mappings_st
      \<lparr>mappings_st = win_map (\<lambda>x. winner som (read_view h x)) (iter_rows h X),
       winning_nodes_st = [], frauds_st = [], printed_st = []\<rparr>) c) =
       lookup (mappings (init_state (win_map (winner som) (rows_at h X)))) c"
  proof
    fix c
    have "map (read_view h) (filter (\<lambda>x. winner som (read_view h x) = c) (iter_rows h X)) =
          filter (\<lambda>x. winner som x = c) (map (read_view h) (iter_rows h X))"
      by (simp add: filter_map comp_def)
    then show "map (read_view h) (lookup (mappings_st
      \<lparr>mappings_st = win_map (\<lambda>x. winner som (read_view h x)) (iter_rows h X),
       winning_nodes_st = [], frauds_st = [], printed_st = []\<rparr>) c) =
       lookup (mappings (init_state (win_map (winner som) (rows_at h X)))) c"
      by (simp add: lookup_win_map init_state_def map_read_view_iter_rows)
  qed
qed (simp_all add: init_state_def)

text \<open>
  The stage over the store computes what the stage over values computes: it raises
  where that one raises, and otherwise the array it returns holds the table of that
  one, for the rows that \<open>X\<close> holds when the stage starts.
\<close>

theorem fraud_stage_refines:
  assumes "X < fresh h"
  shows "map_sum id (rows_at (snd (fraud_stage sc som X h))) (fst (fraud_stage sc som X h)) =
         find_frauds (inverse_row sc) (T (distance_map som)) (95 / 100)
           (win_map (winner som) (rows_at h X))"
proof -
  let ?s0 = "\<lparr>mappings_st = win_map (\<lambda>x. winner som (read_view h x)) (iter_rows h X),
       winning_nodes_st = [], frauds_st = [], printed_st = []\<rparr>"
  let ?d = "T (distance_map som)"
  let ?m = "win_map (winner som) (rows_at h X)"
  obtain r1 h1 where o: "outer_loop_st sc ?d (95 / 100) [0..<10] ?s0 h = (r1, h1)"
    by (cases "outer_loop_st sc ?d (95 / 100) [0..<10] ?s0 h")
  from outer_loop_agree[OF related_init[OF assms, of som], of sc ?d "95 / 100" "[0..<10]"] o
  have "agree X h (r1, h1) (run_loops (inverse_row sc) ?d (95 / 100) ?m)"
    by (simp add: run_loops_def)
  then show ?thesis
  proof (cases rule: agree_cases)
    case (err e)
    with o show ?thesis by (simp add: fraud_stage_def find_frauds_def)
  next
    case (ok sst s)
    from ok(3) have fs: "map (rows_at h1) (frauds_st sst) = frauds s"
      by (simp add: related_def)
    show ?thesis
    proof (cases "frauds_st sst = []")
      case True
      with fs have "frauds s = []" by simp
      with True ok o show ?thesis
        by (simp add: fraud_stage_def find_frauds_def concatenate_st_def concatenate_def)
    next
      case False
      with fs have "frauds s \<noteq> []" by auto
      with False ok o fs show ?thesis
        by (simp add: fraud_stage_def find_frauds_def concatenate_st_def concatenate_def
            alloc_def rows_at_def)
    qed
  qed
qed

theorem fraud_stage_refines_witness:
  "0 < fresh ex_store \<and>
   find_frauds (inverse_row (fitted [[1, 10], [3, 10], [2, 10]])) (T (distance_map ex_som)) (95 / 100)
     (win_map (winner ex_som) (rows_at ex_store 0)) = Inr [[3, 10], [2, 10]] \<and>
   map_sum id (rows_at (snd (fraud_stage (fitted [[1, 10], [3, 10], [2, 10]]) ex_som 0 ex_store)))
     (fst (fraud_stage (fitted [[1, 10], [3, 10], [2, 10]]) ex_som 0 ex_store)) = Inr [[3, 10], [2, 10]]"
proof -
  have x: "0 < fresh ex_store" by (simp add: ex_store_def)
  have v: "find_frauds (inverse_row (fitted [[1, 10], [3, 10], [2, 10]])) (T (distance_map ex_som)) (95 / 100)
     (win_map (winner ex_som) (rows_at ex_store 0)) = Inr [[3, 10], [2, 10]]"
    by code_simp
  from fraud_stage_refines[OF x, of "fitted [[1, 10], [3, 10], [2, 10]]" ex_som] v x
  show ?thesis by simp
qed

section \<open>Further facts about the two scripts\<close>

lemma elbow_loop_map: "elbow_loop inertia X ks wcss = wcss @ map (\<lambda>k. inertia k X) ks"
  by (induction ks arbitrary: wcss) auto

text \<open>
  The list \<^verbatim>\<open>wcss\<close> after the loop: the objective values for 1 to 10 clusters, in
  that order.
\<close>

theorem elbow_records:
  "elbow inertia X = map (\<lambda>k. inertia k X) [1..<11] \<and> length (elbow inertia X) = 10"
  by (simp add: elbow_def elbow_loop_map)

text \<open>
  A cell over the threshold that holds no record ends the script: \<^verbatim>\<open>mappings[(j, i)]\<close>
  is then the empty list and \<^verbatim>\<open>sc.inverse_transform\<close> refuses it.  So lowering the
  threshold can turn a run that produced a table into one that raises.
\<close>

theorem empty_cell_raises:
  assumes "i < 10" and "j < 10" and "dist_T i j > threshold" and "lookup m (j, i) = []"
  shows "find_frauds unscale dist_T threshold m = Inl ValueError"
proof -
  from assms(1-3) have "(i, j) \<in> set (selected dist_T threshold)"
    by (simp add: selected_def set_grid_order)
  with assms(4) have "\<exists>(i, j) \<in> set (selected dist_T threshold). lookup m (j, i) = []"
    by blast
  then show ?thesis by (simp add: find_frauds_eq)
qed

theorem empty_cell_raises_witness:
  "lookup [(3, 2) \<mapsto> [[1 / 2, 0 :: real]]] (1 :: nat, 4 :: nat) = [] \<and>
   find_frauds ex_unscale ex_dist (95 / 100) [(3, 2) \<mapsto> [[1 / 2, 0]]] = Inr [[2, 1]] \<and>
   find_frauds ex_unscale ex_dist (1 / 2) [(3, 2) \<mapsto> [[1 / 2, 0]]] = Inl ValueError"
proof -
  have a: "(4 :: nat) < 10" and b: "(1 :: nat) < 10" by simp_all
  have c: "ex_dist 4 1 > 1 / 2" by (simp add: ex_dist_def)
  have d: "lookup [(3, 2) \<mapsto> [[1 / 2, 0 :: real]]] (1 :: nat, 4 :: nat) = []"
    by (simp add: lookup_def getitem_def)
  have e: "find_frauds ex_unscale ex_dist (95 / 100) [(3, 2) \<mapsto> [[1 / 2, 0]]] = Inr [[2, 1]]"
    by code_simp
  from empty_cell_raises[where dist_T = ex_dist and threshold = "1 / 2" and i = 4 and j = 1
      and unscale = ex_unscale, OF a b c d] d e show ?thesis by blast
qed

text \<open>
  A label other than 0 or 1 (and other than -1 or -2) ends the script in the plot
  loop, before any fraud is collected.
\<close>

theorem third_label_raises:
  "som_script ex_train [([1, 10], 0), ([3, 10], 2), ([2, 10], 0)] = Inl IndexError \<and>
   flagged ex_train [([1, 10], 0), ([3, 10], 1), ([2, 10], 0)] = Inr [[3, 10], [2, 10]]"
  by code_simp

end
